theory Spec2Isabelle
  imports Main "HOL-Library.Sublist"
begin

section \<open>Text analysis service: summary and action extraction (main.py)\<close>

subsection \<open>Python strings\<close>

text \<open>
  A Python \<open>str\<close> is a sequence of Unicode code points. The source strips the bullet
  U+2022, which no 8-bit character holds, so a character is its code point (a natural
  number) and a string is a list of code points. \<open>ustr_of\<close> reads an ASCII literal.
\<close>

type_synonym uchar = nat
type_synonym ustr = "nat list"

definition ustr_of :: "string \<Rightarrow> ustr" where
  "ustr_of s = map of_char s"

text \<open>
  \<open>str.isspace\<close>, \<open>str.strip()\<close> and the pattern \<open>\s\<close> share one table of whitespace
  code points in the Python runtime; \<open>str.splitlines\<close> has its own table of line
  boundaries.
\<close>

definition isspace :: "uchar \<Rightarrow> bool" where
  "isspace c \<longleftrightarrow>
     (9 \<le> c \<and> c \<le> 13) \<or> (28 \<le> c \<and> c \<le> 32) \<or> c = 133 \<or> c = 160 \<or> c = 5760 \<or>
     (8192 \<le> c \<and> c \<le> 8202) \<or> c = 8232 \<or> c = 8233 \<or> c = 8239 \<or> c = 8287 \<or> c = 12288"

definition is_linebreak :: "uchar \<Rightarrow> bool" where
  "is_linebreak c \<longleftrightarrow>
     (10 \<le> c \<and> c \<le> 13) \<or> (28 \<le> c \<and> c \<le> 30) \<or> c = 133 \<or> c = 8232 \<or> c = 8233"

text \<open>\<open>s.strip(chars)\<close> and \<open>s.strip()\<close>: drop from both ends.\<close>

definition strip_chars :: "uchar list \<Rightarrow> ustr \<Rightarrow> ustr" where
  "strip_chars cs s = rev (dropWhile (\<lambda>c. c \<in> set cs) (rev (dropWhile (\<lambda>c. c \<in> set cs) s)))"

definition strip :: "ustr \<Rightarrow> ustr" where
  "strip s = rev (dropWhile isspace (rev (dropWhile isspace s)))"

text \<open>
  \<open>s.splitlines()\<close>: cut at every line boundary, \<open>\r\n\<close> counting as one; no empty last
  line after a final boundary. \<open>cur\<close> is the line read so far.
\<close>

fun splitlines_from :: "ustr \<Rightarrow> ustr \<Rightarrow> ustr list" where
  "splitlines_from cur [] = (if cur = [] then [] else [cur])"
| "splitlines_from cur (c # cs) =
     (if is_linebreak c then
        cur # (if c = 13 then
                 (case cs of
                    [] \<Rightarrow> splitlines_from [] cs
                  | d # ds \<Rightarrow> if d = 10 then splitlines_from [] ds else splitlines_from [] cs)
               else splitlines_from [] cs)
      else splitlines_from (cur @ [c]) cs)"

definition splitlines :: "ustr \<Rightarrow> ustr list" where
  "splitlines s = splitlines_from [] s"

text \<open>
  \<open>s.lower()\<close>. On a string of ASCII characters only, the runtime maps \<open>A-Z\<close> to \<open>a-z\<close>
  and nothing else. On any other string it applies the Unicode case mapping, whose
  tables are the runtime's and not the repository's: that mapping is the parameter
  \<open>ul\<close> of every function that lower-cases.
\<close>

definition ascii_lower :: "uchar \<Rightarrow> uchar" where
  "ascii_lower c = (if 65 \<le> c \<and> c \<le> 90 then c + 32 else c)"

definition lower :: "(ustr \<Rightarrow> ustr) \<Rightarrow> ustr \<Rightarrow> ustr" where
  "lower ul s = (if list_all (\<lambda>c. c < 128) s then map ascii_lower s else ul s)"

text \<open>
  A case mapping that changes ASCII letters only. It stands for \<open>ul\<close> wherever a concrete
  input is evaluated; on an ASCII input \<open>lower\<close> never calls it.
\<close>

definition ascii_lower_only :: "ustr \<Rightarrow> ustr" where
  "ascii_lower_only s = map ascii_lower s"

definition startswith :: "ustr \<Rightarrow> ustr \<Rightarrow> bool" where
  "startswith s p \<longleftrightarrow> take (length p) s = p"

definition endswith :: "ustr \<Rightarrow> ustr \<Rightarrow> bool" where
  "endswith s p \<longleftrightarrow> length p \<le> length s \<and> drop (length s - length p) s = p"

text \<open>\<open>k in s\<close> on strings: \<open>k\<close> occurs in \<open>s\<close> as a contiguous run.\<close>

fun contains :: "ustr \<Rightarrow> ustr \<Rightarrow> bool" where
  "contains [] k = (k = [])"
| "contains (c # cs) k = (startswith (c # cs) k \<or> contains cs k)"

subsection \<open>Regular expressions of the source\<close>

text \<open>
  Every pattern of the source is a sequence of character classes, each with a greedy
  repetition \<open>{lo,hi}\<close> (\<open>+\<close> is \<open>{1,}\<close>, a single class or literal is \<open>{1,1}\<close>),
  after an optional group. \<open>match_seq\<close> is the backtracking matcher on such a sequence,
  anchored at the start of \<open>s\<close>: an item first takes as many characters as it can, and
  gives them back one by one while the rest of the pattern fails. The result is the
  number of characters each item took in the first match found.
\<close>

datatype item = Rep "uchar \<Rightarrow> bool" nat "nat option"

function match_seq :: "item list \<Rightarrow> ustr \<Rightarrow> nat list option"
  and try_count :: "(uchar \<Rightarrow> bool) \<Rightarrow> nat \<Rightarrow> item list \<Rightarrow> ustr \<Rightarrow> nat \<Rightarrow> nat list option"
where
  "match_seq [] s = Some []"
| "match_seq (Rep p lo hi # items) s =
     try_count p lo items s
       (length (takeWhile p (case hi of None \<Rightarrow> s | Some h \<Rightarrow> take h s)))"
| "try_count p lo items s n =
     (if n < lo then None
      else case match_seq items (drop n s) of
             Some ns \<Rightarrow> Some (n # ns)
           | None \<Rightarrow> if n = 0 then None else try_count p lo items s (n - 1))"
  by pat_completeness auto
termination
  by (relation "measures [\<lambda>x. case x of Inl (items, s) \<Rightarrow> 2 * length items
                                     | Inr (p, lo, items, s, n) \<Rightarrow> 2 * length items + 1,
                          \<lambda>x. case x of Inl _ \<Rightarrow> 0 | Inr (p, lo, items, s, n) \<Rightarrow> n]")
     auto

declare try_count.simps [simp del]

text \<open>
  \<open>(g)?r\<close> anchored at the start: the group is tried first, with all the backtracking
  inside it and the rest, and skipped only when that fails. The result is the counts of
  the group's items (empty when the group was skipped) and the counts of the rest.
\<close>

definition match_optional :: "item list \<Rightarrow> item list \<Rightarrow> ustr \<Rightarrow> (nat list \<times> nat list) option" where
  "match_optional g r s =
     (case match_seq (g @ r) s of
        Some ns \<Rightarrow> Some (take (length g) ns, drop (length g) ns)
      | None \<Rightarrow> (case match_seq r s of Some ns \<Rightarrow> Some ([], ns) | None \<Rightarrow> None))"

text \<open>
  What a match is, stated without the search: \<open>valid items s ns\<close> holds when the items
  can take \<open>ns\<close> characters each, in order, from the start of \<open>s\<close>, every count within
  its bounds and every character in its class.
\<close>

fun valid :: "item list \<Rightarrow> ustr \<Rightarrow> nat list \<Rightarrow> bool" where
  "valid [] s ns = (ns = [])"
| "valid (Rep p lo hi # items) s [] = False"
| "valid (Rep p lo hi # items) s (n # ns) =
     (lo \<le> n \<and> (case hi of None \<Rightarrow> True | Some h \<Rightarrow> n \<le> h) \<and> n \<le> length s \<and>
      list_all p (take n s) \<and> valid items (drop n s) ns)"

definition lit :: "ustr \<Rightarrow> item list" where
  "lit s = map (\<lambda>c. Rep (\<lambda>x. x = c) 1 (Some 1)) s"

definition is_alpha :: "uchar \<Rightarrow> bool" where
  "is_alpha c \<longleftrightarrow> (65 \<le> c \<and> c \<le> 90) \<or> (97 \<le> c \<and> c \<le> 122)"

definition is_stop :: "uchar \<Rightarrow> bool" where
  "is_stop c \<longleftrightarrow> c = 46 \<or> c = 63 \<or> c = 33"

subsection \<open>The summary generator\<close>

text \<open>
  \<open>re.sub(r"\s+", " ", text)\<close>: every maximal run of whitespace becomes one space.
  \<open>in_run\<close> tells that the previous character was whitespace.
\<close>

fun sub_ws :: "bool \<Rightarrow> ustr \<Rightarrow> ustr" where
  "sub_ws in_run [] = []"
| "sub_ws in_run (c # cs) =
     (if isspace c then (if in_run then sub_ws True cs else 32 # sub_ws True cs)
      else c # sub_ws False cs)"

definition cleaned_text :: "ustr \<Rightarrow> ustr" where
  "cleaned_text text = strip (sub_ws False text)"

text \<open>Two neighbours in a string that are not both whitespace.\<close>

definition not_both_space :: "uchar \<Rightarrow> uchar \<Rightarrow> bool" where
  "not_both_space x y \<longleftrightarrow> \<not> (isspace x \<and> isspace y)"

text \<open>The pattern \<open>([^.?!]{10,200}[.?!])\<close>.\<close>

definition sentence_re :: "item list" where
  "sentence_re = [Rep (\<lambda>c. \<not> is_stop c) 10 (Some 200), Rep is_stop 1 (Some 1)]"

text \<open>
  \<open>re.search\<close> tries the start positions from left to right, the end of the string
  included; the result is group 1, the whole match.
\<close>

fun re_search_sentence :: "ustr \<Rightarrow> ustr option" where
  "re_search_sentence s =
     (case match_seq sentence_re s of
        Some ns \<Rightarrow> Some (take (sum_list ns) s)
      | None \<Rightarrow> (case s of [] \<Rightarrow> None | c # cs \<Rightarrow> re_search_sentence cs))"

declare re_search_sentence.simps [simp del]

text \<open>The local \<open>prefix\<close> of \<open>_heuristic_summary\<close>; \<open>lang or "en"\<close> replaces an empty \<open>lang\<close>.\<close>

definition lang_prefix :: "(ustr \<Rightarrow> ustr) \<Rightarrow> ustr \<Rightarrow> ustr" where
  "lang_prefix ul lang =
     (if startswith (lower ul (if lang = [] then ustr_of ''en'' else lang)) (ustr_of ''te'')
      then ustr_of ''[Telugu] '' else [])"

definition heuristic_summary :: "(ustr \<Rightarrow> ustr) \<Rightarrow> ustr \<Rightarrow> ustr \<Rightarrow> ustr" where
  "heuristic_summary ul text lang =
     (let cleaned = cleaned_text text in
      if cleaned = [] then ustr_of ''No content provided.''
      else
        let prefix = lang_prefix ul lang;
            base = (case re_search_sentence cleaned of
                      Some m \<Rightarrow> strip m
                    | None \<Rightarrow> strip (take 150 cleaned))
        in prefix @ base)"

subsection \<open>The action extractor\<close>

definition action_keywords :: "ustr list" where
  "action_keywords = map ustr_of
     [''schedule'', ''reschedule'', ''meeting'', ''review'', ''submit'', ''report'', ''call'',
      ''notify'', ''send'', ''prepare'', ''follow up'', ''follow-up'', ''remind'', ''escalate'',
      ''approve'', ''circulate'', ''assign'', ''deadline'', ''arrange'', ''brief'']"

text \<open>The characters of \<open>l.strip(" -\<bullet>\t")\<close>: space, hyphen, the bullet U+2022, tab.\<close>

definition bullet_chars :: "uchar list" where
  "bullet_chars = [32, 45, 8226, 9]"

definition fallback_action :: ustr where
  "fallback_action = ustr_of ''Review the message and assign to the concerned department.''"

text \<open>
  The patterns \<open>^(please\s+)?([a-zA-Z]+)(\s+)[A-Za-z]\<close> and \<open>^(please\s+)?([a-zA-Z]+)\<close>
  share the optional group \<open>(please\s+)\<close>; no flag makes them ignore case.
\<close>

definition please_group :: "item list" where
  "please_group = lit (ustr_of ''please'') @ [Rep isspace 1 None]"

definition imperative_re :: "item list" where
  "imperative_re = [Rep is_alpha 1 None, Rep isspace 1 None, Rep is_alpha 1 (Some 1)]"

definition token_re :: "item list" where
  "token_re = [Rep is_alpha 1 None]"

text \<open>
  \<open>re.match(r"^(please\s+)?([a-zA-Z]+)", line).group(2)\<close>: the text of the second group.
  \<open>None\<close> is the AttributeError that \<open>.group\<close> raises when the match failed.
\<close>

definition match_token :: "ustr \<Rightarrow> ustr option" where
  "match_token line =
     (case match_optional please_group token_re line of
        None \<Rightarrow> None
      | Some (g, r) \<Rightarrow> Some (take (sum_list r) (drop (sum_list g) line)))"

text \<open>
  The imperative heuristic, lines 112 to 115 of the source: whether the line is recorded
  by it.
\<close>

definition imperative :: "(ustr \<Rightarrow> ustr) \<Rightarrow> ustr \<Rightarrow> bool option" where
  "imperative ul line =
     (if match_optional please_group imperative_re line \<noteq> None then
        (case match_token line of
           None \<Rightarrow> None
         | Some tok \<Rightarrow>
             let token = lower ul tok in
             Some (endswith token (ustr_of ''e'') \<or> endswith token (ustr_of ''d'') \<or>
                   endswith token (ustr_of ''n'') \<or> endswith token (ustr_of ''y'')))
      else Some False)"

text \<open>The first loop of \<open>_extract_actions\<close>; \<open>actions\<close> is the list built so far.\<close>

fun scan_lines :: "(ustr \<Rightarrow> ustr) \<Rightarrow> ustr list \<Rightarrow> ustr list \<Rightarrow> ustr list option" where
  "scan_lines ul [] actions = Some actions"
| "scan_lines ul (line # ls) actions =
     (if list_ex (contains (lower ul line)) action_keywords
      then scan_lines ul ls (actions @ [line])
      else (case imperative ul line of
              None \<Rightarrow> None
            | Some True \<Rightarrow> scan_lines ul ls (actions @ [line])
            | Some False \<Rightarrow> scan_lines ul ls actions))"

text \<open>The second loop: \<open>seen\<close> is the set of lower-cased keys, \<open>deduped\<close> the result so far.\<close>

fun dedup_loop :: "(ustr \<Rightarrow> ustr) \<Rightarrow> ustr list \<Rightarrow> ustr set \<Rightarrow> ustr list \<Rightarrow> ustr list" where
  "dedup_loop ul [] seen deduped = deduped"
| "dedup_loop ul (a # as) seen deduped =
     (let key = lower ul a in
      if key \<notin> seen then dedup_loop ul as (insert key seen) (deduped @ [a])
      else dedup_loop ul as seen deduped)"

definition stripped_lines :: "ustr \<Rightarrow> ustr list" where
  "stripped_lines text =
     map (strip_chars bullet_chars) (filter (\<lambda>l. strip l \<noteq> []) (splitlines text))"

definition extract_actions :: "(ustr \<Rightarrow> ustr) \<Rightarrow> ustr \<Rightarrow> ustr list option" where
  "extract_actions ul text =
     (case scan_lines ul (stripped_lines text) [] of
        None \<Rightarrow> None
      | Some actions \<Rightarrow>
          let deduped = dedup_loop ul actions {} [];
              deduped = (if deduped = [] \<and> strip text \<noteq> [] then [fallback_action]
                         else deduped)
          in Some (take 10 deduped))"

text \<open>A line that the first loop records: by the keyword test or by the imperative heuristic.\<close>

definition recorded :: "(ustr \<Rightarrow> ustr) \<Rightarrow> ustr \<Rightarrow> bool" where
  "recorded ul line \<longleftrightarrow>
     list_ex (contains (lower ul line)) action_keywords \<or> imperative ul line = Some True"


text \<open>
  The line as the specification words it: surrounding whitespace removed, then the
  leading bullet characters. It is compared with what the source does.
\<close>

definition spec_strip_line :: "ustr \<Rightarrow> ustr" where
  "spec_strip_line l = dropWhile (\<lambda>c. c \<in> set bullet_chars) (strip l)"

subsection \<open>The request handler\<close>

record AnalyzeRequest =
  req_text :: ustr
  req_lang :: "ustr option"

record AnalyzeResponse =
  summary :: ustr
  actions :: "ustr list"

text \<open>
  \<open>req.lang or "en"\<close>: a missing or empty language is English. The handler reads the two
  fields of the request and nothing else, so the request may carry more. \<open>None\<close> is the
  request that ends in an exception.
\<close>

definition analyze :: "(ustr \<Rightarrow> ustr) \<Rightarrow> 'a AnalyzeRequest_scheme \<Rightarrow> AnalyzeResponse option" where
  "analyze ul req =
     (let lang = (case req_lang req of None \<Rightarrow> ustr_of ''en''
                  | Some l \<Rightarrow> if l = [] then ustr_of ''en'' else l);
          sm = heuristic_summary ul (req_text req) lang
      in case extract_actions ul (req_text req) of
           None \<Rightarrow> None
         | Some acts \<Rightarrow> Some \<lparr>summary = sm, actions = acts\<rparr>)"

section \<open>Properties\<close>

subsection \<open>Characters, stripping, whitespace collapsing\<close>

lemma isspace_not_alpha: "isspace c \<Longrightarrow> \<not> is_alpha c"
  by (auto simp: isspace_def is_alpha_def)

lemma isspace_not_stop: "isspace c \<Longrightarrow> \<not> is_stop c"
  by (auto simp: isspace_def is_stop_def)

lemma isspace_32: "isspace 32"
  by (simp add: isspace_def)

lemma dropWhile_all_iff: "(\<forall>x\<in>set (dropWhile P xs). P x) \<longleftrightarrow> (\<forall>x\<in>set xs. P x)"
proof
  assume a: "\<forall>x\<in>set (dropWhile P xs). P x"
  have "set xs = set (takeWhile P xs) \<union> set (dropWhile P xs)"
    by (metis set_append takeWhile_dropWhile_id)
  with a show "\<forall>x\<in>set xs. P x" by (auto dest: set_takeWhileD)
next
  assume "\<forall>x\<in>set xs. P x"
  then show "\<forall>x\<in>set (dropWhile P xs). P x" by (auto dest: set_dropWhileD)
qed

lemma strip_subset: "set (strip s) \<subseteq> set s"
proof
  fix x assume "x \<in> set (strip s)"
  then have "x \<in> set (dropWhile isspace (rev (dropWhile isspace s)))"
    by (simp add: strip_def)
  then have "x \<in> set (rev (dropWhile isspace s))" by (rule set_dropWhileD)
  then have "x \<in> set (dropWhile isspace s)" by simp
  then show "x \<in> set s" by (rule set_dropWhileD)
qed

lemma strip_eq_Nil: "strip s = [] \<longleftrightarrow> (\<forall>c\<in>set s. isspace c)"
proof -
  have "strip s = [] \<longleftrightarrow> (\<forall>x\<in>set (rev (dropWhile isspace s)). isspace x)"
    by (simp add: strip_def dropWhile_eq_Nil_conv)
  also have "\<dots> \<longleftrightarrow> (\<forall>x\<in>set (dropWhile isspace s). isspace x)" by simp
  also have "\<dots> \<longleftrightarrow> (\<forall>x\<in>set s. isspace x)" by (rule dropWhile_all_iff)
  finally show ?thesis .
qed

lemma set_sub_ws: "set (sub_ws b s) \<subseteq> insert 32 (set s)"
  by (induction s arbitrary: b) auto

lemma sub_ws_all_space:
  assumes "\<forall>c\<in>set s. isspace c" shows "\<forall>c\<in>set (sub_ws b s). isspace c"
proof
  fix c assume "c \<in> set (sub_ws b s)"
  with set_sub_ws [of b s] have "c = 32 \<or> c \<in> set s" by auto
  with assms isspace_32 show "isspace c" by auto
qed

lemma sub_ws_nonspace: "c \<in> set s \<Longrightarrow> \<not> isspace c \<Longrightarrow> c \<in> set (sub_ws b s)"
  by (induction s arbitrary: b) auto

lemma cleaned_text_eq_Nil: "cleaned_text t = [] \<longleftrightarrow> (\<forall>c\<in>set t. isspace c)"
proof
  assume "cleaned_text t = []"
  then have a: "\<forall>c\<in>set (sub_ws False t). isspace c"
    by (simp add: cleaned_text_def strip_eq_Nil)
  show "\<forall>c\<in>set t. isspace c"
  proof (rule ccontr)
    assume "\<not> (\<forall>c\<in>set t. isspace c)"
    then obtain c where "c \<in> set t" "\<not> isspace c" by blast
    with sub_ws_nonspace [of c t False] a show False by blast
  qed
next
  assume "\<forall>c\<in>set t. isspace c"
  then have "\<forall>c\<in>set (sub_ws False t). isspace c" by (rule sub_ws_all_space)
  then show "cleaned_text t = []" by (simp add: cleaned_text_def strip_eq_Nil)
qed

subsection \<open>The matcher finds a match exactly when there is one\<close>

lemma try_count_0:
  "try_count p lo items s 0 =
     (if 0 < lo then None else map_option (Cons 0) (match_seq items s))"
  by (subst try_count.simps) (simp split: option.splits)

lemma try_count_Suc:
  "try_count p lo items s (Suc n) =
     (if Suc n < lo then None
      else case match_seq items (drop (Suc n) s) of
             Some ns \<Rightarrow> Some (Suc n # ns)
           | None \<Rightarrow> try_count p lo items s n)"
  by (subst try_count.simps) (simp split: option.splits)

lemma try_count_hit:
  "lo \<le> n \<Longrightarrow> match_seq items (drop n s) = Some ns \<Longrightarrow> try_count p lo items s n = Some (n # ns)"
  by (subst try_count.simps) simp

lemma try_count_Some:
  "try_count p lo items s m = Some r \<Longrightarrow>
     \<exists>n ns. r = n # ns \<and> lo \<le> n \<and> n \<le> m \<and> match_seq items (drop n s) = Some ns"
proof (induction m)
  case 0
  then show ?case by (auto simp: try_count_0 split: if_splits)
next
  case (Suc m)
  show ?case
  proof (cases "match_seq items (drop (Suc m) s)")
    case None
    with Suc.prems have "try_count p lo items s m = Some r"
      by (simp add: try_count_Suc split: if_splits)
    from Suc.IH [OF this] obtain n ns where
      "r = n # ns" "lo \<le> n" "n \<le> m" "match_seq items (drop n s) = Some ns" by blast
    then show ?thesis by (intro exI [of _ n] exI [of _ ns]) simp
  next
    case (Some ns)
    with Suc.prems show ?thesis
      by (auto simp: try_count_Suc split: if_splits)
  qed
qed

lemma try_count_complete:
  "lo \<le> n \<Longrightarrow> n \<le> m \<Longrightarrow> match_seq items (drop n s) \<noteq> None \<Longrightarrow>
     try_count p lo items s m \<noteq> None"
proof (induction m)
  case 0
  then show ?case by (auto simp: try_count_0)
next
  case (Suc m)
  show ?case
  proof (cases "n = Suc m")
    case True
    with Suc.prems show ?thesis by (auto simp: try_count_Suc)
  next
    case False
    with Suc.prems have "n \<le> m" by simp
    with Suc have "try_count p lo items s m \<noteq> None" by simp
    moreover have "\<not> Suc m < lo" using Suc.prems by simp
    ultimately show ?thesis by (simp add: try_count_Suc split: option.splits)
  qed
qed

lemma takeWhile_bound:
  "list_all p (take n xs) \<Longrightarrow> n \<le> length xs \<Longrightarrow> n \<le> length (takeWhile p xs)"
proof (induction xs arbitrary: n)
  case Nil
  then show ?case by simp
next
  case (Cons x xs)
  then show ?case by (cases n) auto
qed

lemma take_takeWhile_all:
  "n \<le> length (takeWhile p xs) \<Longrightarrow> list_all p (take n xs)"
proof (induction xs arbitrary: n)
  case Nil
  then show ?case by simp
next
  case (Cons x xs)
  then show ?case by (cases n) (auto split: if_splits)
qed

lemma match_seq_sound: "match_seq items s = Some ns \<Longrightarrow> valid items s ns"
proof (induction items arbitrary: s ns)
  case Nil
  then show ?case by simp
next
  case (Cons it items)
  obtain p lo hi where it: "it = Rep p lo hi" by (cases it)
  let ?b = "case hi of None \<Rightarrow> s | Some h \<Rightarrow> take h s"
  from Cons.prems it have "try_count p lo items s (length (takeWhile p ?b)) = Some ns"
    by simp
  from try_count_Some [OF this] obtain n ns' where
    r: "ns = n # ns'" "lo \<le> n" "n \<le> length (takeWhile p ?b)"
       "match_seq items (drop n s) = Some ns'" by blast
  have v: "valid items (drop n s) ns'" using Cons.IH r(4) by blast
  have lb: "length (takeWhile p ?b) \<le> length ?b" by (rule length_takeWhile_le)
  have nb: "n \<le> length ?b" using r(3) lb by simp
  have ns: "n \<le> length s" using nb by (cases hi) auto
  have nh: "case hi of None \<Rightarrow> True | Some h \<Rightarrow> n \<le> h" using nb by (cases hi) auto
  have "list_all p (take n ?b)" using r(3) by (rule take_takeWhile_all)
  moreover have "take n ?b = take n s" using nh by (cases hi) (auto simp: min_def)
  ultimately have "list_all p (take n s)" by simp
  with v ns nh r show ?case by (simp add: it)
qed

lemma match_seq_complete: "valid items s ns \<Longrightarrow> match_seq items s \<noteq> None"
proof (induction items arbitrary: s ns)
  case Nil
  then show ?case by simp
next
  case (Cons it items)
  obtain p lo hi where it: "it = Rep p lo hi" by (cases it)
  from Cons.prems it obtain n ns' where ns: "ns = n # ns'" by (cases ns) auto
  let ?b = "case hi of None \<Rightarrow> s | Some h \<Rightarrow> take h s"
  from Cons.prems it ns have
    v: "lo \<le> n" "case hi of None \<Rightarrow> True | Some h \<Rightarrow> n \<le> h" "n \<le> length s"
       "list_all p (take n s)" "valid items (drop n s) ns'" by auto
  have tb: "take n ?b = take n s" using v(2) by (cases hi) (auto simp: min_def)
  have nb: "n \<le> length ?b" using v(2,3) by (cases hi) auto
  have "n \<le> length (takeWhile p ?b)"
    using takeWhile_bound [of p n ?b] tb v(4) nb by simp
  moreover have "match_seq items (drop n s) \<noteq> None" using Cons.IH v(5) by blast
  ultimately have "try_count p lo items s (length (takeWhile p ?b)) \<noteq> None"
    using v(1) by (rule try_count_complete [rotated])
  then show ?case by (simp add: it)
qed

lemma valid_prefix: "valid (xs @ ys) s ns \<Longrightarrow> valid xs s (take (length xs) ns)"
proof (induction xs arbitrary: s ns)
  case Nil
  then show ?case by simp
next
  case (Cons it xs)
  obtain p lo hi where it: "it = Rep p lo hi" by (cases it)
  from Cons.prems it obtain n ns' where ns: "ns = n # ns'" by (cases ns) auto
  with Cons it show ?case by auto
qed

lemma splitlines_from_chars:
  "l \<in> set (splitlines_from cur s) \<Longrightarrow> set l \<subseteq> set cur \<union> set s"
proof (induction cur s rule: splitlines_from.induct)
  case (1 cur)
  then show ?case by (simp split: if_splits)
next
  case (2 cur c cs)
  show ?case
  proof (cases "is_linebreak c")
    case False
    with 2 show ?thesis by auto
  next
    case True
    note lb = this
    show ?thesis
    proof (cases "c = 13")
      case False
      with 2 lb show ?thesis by auto
    next
      case True
      show ?thesis
      proof (cases cs)
        case Nil
        with 2 lb True show ?thesis by auto
      next
        case (Cons d ds)
        with 2 lb True show ?thesis by (cases "d = 10") auto
      qed
    qed
  qed
qed

lemma splitlines_chars: "l \<in> set (splitlines s) \<Longrightarrow> set l \<subseteq> set s"
  using splitlines_from_chars [of l "[]" s] by (simp add: splitlines_def)

lemma sentence_valid:
  "valid sentence_re s ns \<longleftrightarrow>
     (\<exists>n. ns = [n, 1] \<and> 10 \<le> n \<and> n \<le> 200 \<and> n < length s \<and>
          list_all (\<lambda>c. \<not> is_stop c) (take n s) \<and> is_stop (s ! n))"
proof (cases ns)
  case Nil
  then show ?thesis by (simp add: sentence_re_def)
next
  case (Cons n ns')
  show ?thesis
  proof (cases ns')
    case Nil
    with Cons show ?thesis by (simp add: sentence_re_def)
  next
    case (Cons k ns'')
    have "k = 1 \<and> k \<le> length (drop n s) \<and> list_all is_stop (take k (drop n s))
           \<longleftrightarrow> k = 1 \<and> n < length s \<and> is_stop (s ! n)"
    proof (cases "n < length s")
      case True
      then have "drop n s = s ! n # drop (Suc n) s" by (simp add: Cons_nth_drop_Suc)
      with True show ?thesis by auto
    next
      case False
      then show ?thesis by auto
    qed
    with \<open>ns = n # ns'\<close> Cons show ?thesis
      by (auto simp: sentence_re_def)
  qed
qed

subsection \<open>The sentence search\<close>

lemma sentence_match_Some:
  assumes "match_seq sentence_re s = Some ns"
  shows "\<exists>n. ns = [n, 1] \<and> n < length s \<and> is_stop (s ! n)"
  using match_seq_sound [OF assms] by (auto simp: sentence_valid)

lemma sentence_match_complete:
  assumes "10 \<le> n" "n \<le> 200" "n < length s" "list_all (\<lambda>c. \<not> is_stop c) (take n s)"
    "is_stop (s ! n)"
  shows "match_seq sentence_re s \<noteq> None"
proof -
  have "valid sentence_re s [n, 1]" using assms by (simp add: sentence_valid)
  then show ?thesis by (rule match_seq_complete)
qed

lemma search_unfold:
  "re_search_sentence s =
     (case match_seq sentence_re s of
        Some ns \<Rightarrow> Some (take (sum_list ns) s)
      | None \<Rightarrow> (case s of [] \<Rightarrow> None | c # cs \<Rightarrow> re_search_sentence cs))"
  by (rule re_search_sentence.simps)

lemma search_Some:
  "re_search_sentence s = Some m \<Longrightarrow> m \<noteq> [] \<and> is_stop (last m) \<and> set m \<subseteq> set s"
proof (induction s)
  case Nil
  then show ?case
    by (subst (asm) search_unfold) (auto split: option.splits dest: sentence_match_Some)
next
  case (Cons c cs)
  show ?case
  proof (cases "match_seq sentence_re (c # cs)")
    case None
    with Cons.prems have "re_search_sentence cs = Some m"
      by (subst (asm) search_unfold) simp
    with Cons.IH show ?thesis by auto
  next
    case (Some ns)
    from sentence_match_Some [OF Some] obtain n where
      n: "ns = [n, 1]" "n < length (c # cs)" "is_stop ((c # cs) ! n)" by blast
    from Cons.prems Some n have m: "m = take (Suc n) (c # cs)"
      by (subst (asm) search_unfold) simp
    have "last m = (c # cs) ! n"
      using n(2) unfolding m by (simp only: take_Suc_conv_app_nth last_snoc)
    moreover have "m \<noteq> []" unfolding m by simp
    moreover have "set m \<subseteq> set (c # cs)" unfolding m by (rule set_take_subset)
    ultimately show ?thesis using n(3) by simp
  qed
qed

lemma search_head: "match_seq sentence_re s \<noteq> None \<Longrightarrow> re_search_sentence s \<noteq> None"
  by (subst search_unfold) (auto split: option.splits)

lemma search_tail: "re_search_sentence cs \<noteq> None \<Longrightarrow> re_search_sentence (c # cs) \<noteq> None"
  by (subst search_unfold) (auto split: option.splits)

lemma search_drop: "re_search_sentence (drop i s) \<noteq> None \<Longrightarrow> re_search_sentence s \<noteq> None"
proof (induction s arbitrary: i)
  case Nil
  then show ?case by simp
next
  case (Cons c cs)
  show ?case
  proof (cases i)
    case 0
    with Cons.prems show ?thesis by simp
  next
    case (Suc j)
    with Cons.prems have "re_search_sentence (drop j cs) \<noteq> None" by simp
    then have "re_search_sentence cs \<noteq> None" by (rule Cons.IH)
    then show ?thesis by (rule search_tail)
  qed
qed

lemma search_complete:
  assumes "10 \<le> n" "n \<le> 200" "i + n < length s"
    "\<forall>j<n. \<not> is_stop (s ! (i + j))" "is_stop (s ! (i + n))"
  shows "re_search_sentence s \<noteq> None"
proof -
  have "list_all (\<lambda>c. \<not> is_stop c) (take n (drop i s))"
    using assms(3,4) by (simp add: list_all_length)
  moreover have "n < length (drop i s)" using assms(3) by simp
  moreover have "is_stop (drop i s ! n)" using assms(3,5) by simp
  ultimately have "match_seq sentence_re (drop i s) \<noteq> None"
    using assms(1,2) by (intro sentence_match_complete [of n]) auto
  then have "re_search_sentence (drop i s) \<noteq> None" by (rule search_head)
  then show ?thesis by (rule search_drop)
qed

lemma strip_keeps_last:
  assumes "m \<noteq> []" "\<not> isspace (last m)"
  shows "strip m = dropWhile isspace m" "strip m \<noteq> []" "last (strip m) = last m"
proof -
  let ?d = "dropWhile isspace m"
  have "last m \<in> set m" using assms(1) by simp
  with assms(2) have "\<not> (\<forall>x\<in>set m. isspace x)" by blast
  then have d: "?d \<noteq> []" by (simp add: dropWhile_eq_Nil_conv)
  have "m = takeWhile isspace m @ ?d" by simp
  then have "last m = last (takeWhile isspace m @ ?d)" by simp
  also have "\<dots> = last ?d" using d by (rule last_appendR)
  finally have l: "last ?d = last m" by simp
  have "hd (rev ?d) = last m" using d l by (simp add: hd_rev)
  then have "dropWhile isspace (rev ?d) = rev ?d"
    using assms(2) by (simp add: dropWhile_eq_self_iff)
  then show 1: "strip m = ?d" by (simp add: strip_def)
  from d 1 show "strip m \<noteq> []" by simp
  from l 1 show "last (strip m) = last m" by simp
qed

subsection \<open>The cleaned text\<close>

lemma cleaned_text_chars: "set (cleaned_text t) \<subseteq> insert 32 (set t)"
  using strip_subset [of "sub_ws False t"] set_sub_ws [of False t]
  by (auto simp: cleaned_text_def)

lemma not_stop_32: "\<not> is_stop 32"
  by (simp add: is_stop_def)

lemma search_None_if_no_stop:
  assumes "\<not> list_ex is_stop t"
  shows "re_search_sentence (cleaned_text t) = None"
proof (cases "re_search_sentence (cleaned_text t)")
  case None
  then show ?thesis .
next
  case (Some m)
  from search_Some [OF Some] have "last m \<in> set (cleaned_text t)" "is_stop (last m)"
    by auto
  with cleaned_text_chars [of t] not_stop_32 have "last m \<in> set t" by auto
  with \<open>is_stop (last m)\<close> assms show ?thesis by (auto simp: list_ex_iff)
qed

lemma not_both_space_flip: "(\<lambda>x y. not_both_space y x) = not_both_space"
  by (auto simp: fun_eq_iff not_both_space_def)

lemma sub_ws_single_spaced:
  "successively not_both_space (sub_ws b s) \<and>
   (b \<longrightarrow> sub_ws b s = [] \<or> \<not> isspace (hd (sub_ws b s)))"
proof (induction s arbitrary: b)
  case Nil
  then show ?case by simp
next
  case (Cons c cs)
  from Cons [of True] Cons [of False] show ?case
    by (auto simp: successively_Cons not_both_space_def)
qed

lemma successively_dropWhile: "successively P xs \<Longrightarrow> successively P (dropWhile R xs)"
proof -
  assume "successively P xs"
  then have "successively P (takeWhile R xs @ dropWhile R xs)" by simp
  then show ?thesis by (simp only: successively_append_iff)
qed

lemma successively_take: "successively P xs \<Longrightarrow> successively P (take n xs)"
proof -
  assume "successively P xs"
  then have "successively P (take n xs @ drop n xs)" by simp
  then show ?thesis by (simp only: successively_append_iff)
qed

lemma cleaned_single_spaced: "successively not_both_space (cleaned_text t)"
proof -
  have "successively not_both_space (dropWhile isspace (sub_ws False t))"
    using sub_ws_single_spaced [of False t] by (auto intro: successively_dropWhile)
  then have "successively not_both_space (rev (dropWhile isspace (sub_ws False t)))"
    by (simp only: successively_rev not_both_space_flip)
  then have "successively not_both_space
               (dropWhile isspace (rev (dropWhile isspace (sub_ws False t))))"
    by (rule successively_dropWhile)
  then have "successively not_both_space
               (rev (dropWhile isspace (rev (dropWhile isspace (sub_ws False t)))))"
    by (simp only: successively_rev not_both_space_flip)
  then show ?thesis by (simp only: cleaned_text_def strip_def)
qed

lemma strip_hd: "strip s \<noteq> [] \<Longrightarrow> \<not> isspace (hd (strip s))"
proof -
  let ?e = "dropWhile isspace (rev (dropWhile isspace s))"
  assume a: "strip s \<noteq> []"
  then have e: "?e \<noteq> []" by (simp add: strip_def)
  have "hd (strip s) = last ?e" by (simp add: strip_def hd_rev)
  moreover have "last ?e = last (rev (dropWhile isspace s))"
    using e by (metis last_appendR takeWhile_dropWhile_id)
  moreover have "dropWhile isspace s \<noteq> []"
    using e by (cases "dropWhile isspace s = []") simp_all
  then have "\<not> isspace (hd (dropWhile isspace s))" by (rule hd_dropWhile)
  ultimately show ?thesis by (simp add: last_rev)
qed

lemma cleaned_space_is_32: "c \<in> set (cleaned_text t) \<Longrightarrow> isspace c \<Longrightarrow> c = 32"
proof -
  have "c \<in> set (sub_ws b s) \<Longrightarrow> isspace c \<Longrightarrow> c = 32" for b s
    by (induction s arbitrary: b) (auto split: if_splits)
  moreover assume "c \<in> set (cleaned_text t)" "isspace c"
  ultimately show ?thesis using strip_subset [of "sub_ws False t"]
    by (auto simp: cleaned_text_def)
qed

lemma strip_take_150:
  assumes "150 < length (cleaned_text t)"
  shows "strip (take 150 (cleaned_text t)) =
           (if cleaned_text t ! 149 = 32 then take 149 (cleaned_text t)
            else take 150 (cleaned_text t))"
proof -
  let ?c = "cleaned_text t"
  have ne: "?c \<noteq> []" using assms by auto
  have h: "\<not> isspace (hd ?c)" using strip_hd [of "sub_ws False t"] ne
    by (simp add: cleaned_text_def)
  have t150: "take 150 ?c = take 149 ?c @ [?c ! 149]"
    using assms take_Suc_conv_app_nth [of 149 ?c] by simp
  have hd149: "hd (take 149 ?c) = hd ?c" by (cases ?c) auto
  have lstrip: "dropWhile isspace (take 149 ?c) = take 149 ?c"
    using h hd149 by (simp add: dropWhile_eq_self_iff)
  have l150: "dropWhile isspace (take 150 ?c) = take 150 ?c"
    using h ne by (cases ?c) (auto simp: dropWhile_eq_self_iff)
  have s150: "strip (take 150 ?c) = rev (dropWhile isspace (rev (take 150 ?c)))"
    by (simp only: strip_def l150)
  show ?thesis
  proof (cases "isspace (?c ! 149)")
    case False
    then have "?c ! 149 \<noteq> 32" using isspace_32 by auto
    moreover have "strip (take 150 ?c) = dropWhile isspace (take 150 ?c)"
      using False by (intro strip_keeps_last) (simp_all add: t150)
    ultimately show ?thesis using l150 by simp
  next
    case True
    have "?c ! 149 \<in> set ?c" using assms by simp
    with True have eq: "?c ! 149 = 32" by (rule cleaned_space_is_32 [rotated])
    have "not_both_space (?c ! 148) (?c ! Suc 148)"
      using successively_nth [OF cleaned_single_spaced, of 148 t] assms by simp
    with True have n148: "\<not> isspace (?c ! 148)" by (simp add: not_both_space_def)
    have l149: "last (take 149 ?c) = ?c ! 148"
      using assms take_Suc_conv_app_nth [of 148 ?c] by simp
    have "rev (take 150 ?c) = ?c ! 149 # rev (take 149 ?c)"
      by (subst t150) simp
    then have "dropWhile isspace (rev (take 150 ?c)) = dropWhile isspace (rev (take 149 ?c))"
      using True by simp
    also have "\<dots> = rev (take 149 ?c)"
      using n148 l149 by (simp add: dropWhile_eq_self_iff hd_rev)
    finally have "strip (take 150 ?c) = take 149 ?c" by (simp add: s150)
    then show ?thesis using eq by simp
  qed
qed

subsection \<open>The summary of a text with a sentence\<close>

lemma search_complete_run:
  assumes "10 \<le> n" "n \<le> 200" "i + n < length s"
    "list_all (\<lambda>c. \<not> is_stop c) (take n (drop i s))" "is_stop (s ! (i + n))"
  shows "re_search_sentence s \<noteq> None"
proof -
  have "n < length (drop i s)" using assms(3) by simp
  moreover have "is_stop (drop i s ! n)" using assms(3,5) by simp
  ultimately have "match_seq sentence_re (drop i s) \<noteq> None"
    using assms(1,2,4) by (intro sentence_match_complete [of n]) auto
  then have "re_search_sentence (drop i s) \<noteq> None" by (rule search_head)
  then show ?thesis by (rule search_drop)
qed

lemma summary_of_match:
  assumes "re_search_sentence (cleaned_text t) = Some m"
  shows "heuristic_summary ul t lang = lang_prefix ul lang @ strip m"
    and "strip m \<noteq> []" and "last (strip m) = last m" and "is_stop (last m)"
proof -
  from search_Some [OF assms] have m: "m \<noteq> []" "is_stop (last m)" "set m \<subseteq> set (cleaned_text t)"
    by auto
  then have "cleaned_text t \<noteq> []" by auto
  with assms show "heuristic_summary ul t lang = lang_prefix ul lang @ strip m"
    by (simp add: heuristic_summary_def)
  have "\<not> isspace (last m)" using m(2) isspace_not_stop by blast
  with m(1) show "strip m \<noteq> []" "last (strip m) = last m"
    by (rule strip_keeps_last)+
  show "is_stop (last m)" by (rule m(2))
qed

lemma search_first:
  "re_search_sentence s = Some m \<Longrightarrow>
     \<exists>j k. m = take (Suc k) (drop j s) \<and> 10 \<le> k \<and> k \<le> 200 \<and> j + k < length s \<and>
           list_all (\<lambda>c. \<not> is_stop c) (take k (drop j s)) \<and> is_stop (s ! (j + k)) \<and>
           (\<forall>j'<j. match_seq sentence_re (drop j' s) = None)"
proof (induction s)
  case Nil
  then show ?case
    by (subst (asm) search_unfold) (auto split: option.splits dest: sentence_match_Some)
next
  case (Cons c cs)
  show ?case
  proof (cases "match_seq sentence_re (c # cs)")
    case (Some ns)
    from match_seq_sound [OF Some] obtain n where
      n: "ns = [n, 1]" "10 \<le> n" "n \<le> 200" "n < length (c # cs)"
         "list_all (\<lambda>c. \<not> is_stop c) (take n (c # cs))" "is_stop ((c # cs) ! n)"
      unfolding sentence_valid by blast
    from Cons.prems Some n(1) have m: "m = take (Suc n) (c # cs)"
      by (subst (asm) search_unfold) simp
    show ?thesis
      by (rule exI [of _ 0], rule exI [of _ n]) (use m n in simp)
  next
    case None
    with Cons.prems have "re_search_sentence cs = Some m"
      by (subst (asm) search_unfold) simp
    from Cons.IH [OF this] obtain j k where
      jk: "m = take (Suc k) (drop j cs)" "10 \<le> k" "k \<le> 200" "j + k < length cs"
          "list_all (\<lambda>c. \<not> is_stop c) (take k (drop j cs))" "is_stop (cs ! (j + k))"
          "\<forall>j'<j. match_seq sentence_re (drop j' cs) = None"
      by blast
    have "\<forall>j'<Suc j. match_seq sentence_re (drop j' (c # cs)) = None"
    proof (intro allI impI)
      fix j' assume "j' < Suc j"
      then show "match_seq sentence_re (drop j' (c # cs)) = None"
        using None jk(7) by (cases j') auto
    qed
    with jk show ?thesis
      by (intro exI [of _ "Suc j"] exI [of _ k]) simp
  qed
qed

text \<open>
  C9. Whenever the cleaned text holds a run of 10 to 200 characters, none of them
  \<open>.\<close>, \<open>?\<close> or \<open>!\<close>, directly followed by one of these three, the sentence
  search succeeds: it returns such a run together with the mark that follows it, starting
  no later than the given one, and the summary is the language prefix followed by that
  match, stripped. The summary so includes the terminal mark of the match: its last
  character is that very \<open>.\<close>, \<open>?\<close> or \<open>!\<close> of the cleaned text.
\<close>

theorem summary_ends_with_stop:
  assumes "10 \<le> n" and "n \<le> 200" and "i + n < length (cleaned_text text)"
    and "list_all (\<lambda>c. \<not> is_stop c) (take n (drop i (cleaned_text text)))"
    and "is_stop (cleaned_text text ! (i + n))"
  shows "\<exists>j k. j \<le> i \<and> 10 \<le> k \<and> k \<le> 200 \<and> j + k < length (cleaned_text text) \<and>
           list_all (\<lambda>c. \<not> is_stop c) (take k (drop j (cleaned_text text))) \<and>
           is_stop (cleaned_text text ! (j + k)) \<and>
           re_search_sentence (cleaned_text text) =
             Some (take (Suc k) (drop j (cleaned_text text))) \<and>
           heuristic_summary ul text lang =
             lang_prefix ul lang @ strip (take (Suc k) (drop j (cleaned_text text))) \<and>
           last (heuristic_summary ul text lang) = cleaned_text text ! (j + k)"
proof -
  let ?c = "cleaned_text text"
  have "re_search_sentence ?c \<noteq> None" using assms by (rule search_complete_run)
  then obtain m where m: "re_search_sentence ?c = Some m" by blast
  from search_first [OF m] obtain j k where
    jk: "m = take (Suc k) (drop j ?c)" "10 \<le> k" "k \<le> 200" "j + k < length ?c"
        "list_all (\<lambda>c. \<not> is_stop c) (take k (drop j ?c))" "is_stop (?c ! (j + k))"
        "\<forall>j'<j. match_seq sentence_re (drop j' ?c) = None"
    by blast
  have "match_seq sentence_re (drop i ?c) \<noteq> None"
    using assms by (intro sentence_match_complete [of n]) auto
  with jk(7) have ji: "j \<le> i" by (meson not_le_imp_less)
  have "take (Suc k) (drop j ?c) = take k (drop j ?c) @ [?c ! (j + k)]"
    using jk(4) by (simp add: take_Suc_conv_app_nth)
  then have lm: "last m = ?c ! (j + k)" by (simp add: jk(1))
  have "last (heuristic_summary ul text lang) = last m"
    using summary_of_match(1) [OF m, of ul lang] summary_of_match(2,3) [OF m] by simp
  with lm have l: "last (heuristic_summary ul text lang) = ?c ! (j + k)" by simp
  have s: "heuristic_summary ul text lang = lang_prefix ul lang @ strip (take (Suc k) (drop j ?c))"
    using summary_of_match(1) [OF m, of ul lang] by (simp only: jk(1))
  have r: "re_search_sentence ?c = Some (take (Suc k) (drop j ?c))"
    using m by (simp only: jk(1))
  from ji jk(2-6) r s l show ?thesis by blast
qed

lemma coming_cleaned:
  "cleaned_text (ustr_of ''Are you coming today? yes'') = ustr_of ''Are you coming today? yes''"
  by (simp add: cleaned_text_def strip_def ustr_of_def isspace_def)

lemma coming_search:
  "re_search_sentence (ustr_of ''Are you coming today? yes'') =
     Some (ustr_of ''Are you coming today?'')"
  by (subst search_unfold)
     (simp add: sentence_re_def ustr_of_def is_stop_def try_count_Suc try_count_0)

theorem summary_ends_with_stop_witness:
  "(10::nat) \<le> 20 \<and> (20::nat) \<le> 200 \<and>
   0 + 20 < length (cleaned_text (ustr_of ''Are you coming today? yes'')) \<and>
   list_all (\<lambda>c. \<not> is_stop c)
     (take 20 (drop 0 (cleaned_text (ustr_of ''Are you coming today? yes'')))) \<and>
   is_stop (cleaned_text (ustr_of ''Are you coming today? yes'') ! (0 + 20)) \<and>
   re_search_sentence (cleaned_text (ustr_of ''Are you coming today? yes'')) =
     Some (ustr_of ''Are you coming today?'') \<and>
   heuristic_summary ascii_lower_only (ustr_of ''Are you coming today? yes'') (ustr_of ''en'') =
     ustr_of ''Are you coming today?'' \<and>
   last (heuristic_summary ascii_lower_only (ustr_of ''Are you coming today? yes'')
           (ustr_of ''en'')) = 63"
proof -
  let ?t = "ustr_of ''Are you coming today? yes''"
  have h: "(10::nat) \<le> 20" "(20::nat) \<le> 200" "0 + 20 < length (cleaned_text ?t)"
    "list_all (\<lambda>c. \<not> is_stop c) (take 20 (drop 0 (cleaned_text ?t)))"
    "is_stop (cleaned_text ?t ! (0 + 20))"
    unfolding coming_cleaned by (simp_all add: ustr_of_def is_stop_def)
  from summary_ends_with_stop [OF h, of ascii_lower_only "ustr_of ''en''"] obtain j k where
    r: "re_search_sentence (cleaned_text ?t) = Some (take (Suc k) (drop j (cleaned_text ?t)))"
    and s: "heuristic_summary ascii_lower_only ?t (ustr_of ''en'') =
              lang_prefix ascii_lower_only (ustr_of ''en'') @
              strip (take (Suc k) (drop j (cleaned_text ?t)))"
    by blast
  from r have m: "take (Suc k) (drop j (cleaned_text ?t)) = ustr_of ''Are you coming today?''"
    unfolding coming_cleaned coming_search by simp
  have p: "lang_prefix ascii_lower_only (ustr_of ''en'') = []"
    by (simp add: lang_prefix_def lower_def ascii_lower_def ustr_of_def startswith_def)
  have st: "strip (ustr_of ''Are you coming today?'') = ustr_of ''Are you coming today?''"
    by (simp add: strip_def ustr_of_def isspace_def)
  have sm: "heuristic_summary ascii_lower_only ?t (ustr_of ''en'') =
              ustr_of ''Are you coming today?''"
    using s unfolding m p st by simp
  have l: "last (ustr_of ''Are you coming today?'') = 63" by (simp add: ustr_of_def)
  have rs: "re_search_sentence (cleaned_text ?t) = Some (ustr_of ''Are you coming today?'')"
    unfolding coming_cleaned by (rule coming_search)
  from h rs sm l show ?thesis by (simp only: sm)
qed

subsection \<open>The language prefix and the summary of a long text\<close>

lemma cleaned_empty_iff: "cleaned_text t = [] \<longleftrightarrow> list_all isspace t"
  by (simp add: cleaned_text_eq_Nil list_all_iff)

lemma lower_Nil: "lower ul [] = []"
  by (simp add: lower_def)

lemma lang_prefix_te:
  assumes "startswith (lower ul lang) (ustr_of ''te'')"
  shows "lang_prefix ul lang = ustr_of ''[Telugu] ''"
proof -
  have "lang \<noteq> []" using assms by (auto simp: lower_Nil startswith_def ustr_of_def)
  with assms show ?thesis by (simp add: lang_prefix_def)
qed

lemma summary_nonblank:
  assumes "\<not> list_all isspace t"
  shows "\<exists>base. heuristic_summary ul t lang = lang_prefix ul lang @ base"
  using assms by (simp add: heuristic_summary_def Let_def cleaned_empty_iff)

text \<open>
  C4, amended. For every text with at least one character that is not whitespace and
  every \<open>lang\<close> whose lower-cased form starts with \<open>te\<close>, the summary begins with
  \<open>[Telugu] \<close>.
\<close>

theorem telugu_prefix:
  assumes "\<not> list_all isspace text"
    and "startswith (lower ul lang) (ustr_of ''te'')"
  shows "startswith (heuristic_summary ul text lang) (ustr_of ''[Telugu] '')"
proof -
  from summary_nonblank [OF assms(1)] obtain base where
    "heuristic_summary ul text lang = lang_prefix ul lang @ base" by blast
  with lang_prefix_te [OF assms(2)] show ?thesis by (simp add: startswith_def)
qed

theorem telugu_prefix_witness:
  "\<not> list_all isspace (ustr_of ''hi'') \<and>
   startswith (lower ascii_lower_only (ustr_of ''te-IN'')) (ustr_of ''te'') \<and>
   startswith (heuristic_summary ascii_lower_only (ustr_of ''hi'') (ustr_of ''te-IN''))
     (ustr_of ''[Telugu] '')"
proof -
  have h: "\<not> list_all isspace (ustr_of ''hi'')"
    "startswith (lower ascii_lower_only (ustr_of ''te-IN'')) (ustr_of ''te'')"
    by (simp_all add: ustr_of_def isspace_def lower_def ascii_lower_def startswith_def)
  from telugu_prefix [OF h] h show ?thesis by simp
qed

text \<open>
  C4 as first stated fails on a blank text: the empty text with \<open>lang = TE\<close> gives the
  fixed message, without the prefix.
\<close>

theorem telugu_prefix_blank_counterexample:
  "startswith (lower ascii_lower_only (ustr_of ''TE'')) (ustr_of ''te'') \<and>
   heuristic_summary ascii_lower_only [] (ustr_of ''TE'') = ustr_of ''No content provided.'' \<and>
   \<not> startswith (heuristic_summary ascii_lower_only [] (ustr_of ''TE'')) (ustr_of ''[Telugu] '')"
  by (simp add: heuristic_summary_def cleaned_text_def strip_def ustr_of_def lower_def
      ascii_lower_def startswith_def)

lemma summary_long_no_stop:
  assumes "\<not> list_ex is_stop t" and "150 < length (cleaned_text t)"
  shows "heuristic_summary ul t lang =
           lang_prefix ul lang @
           (if cleaned_text t ! 149 = 32 then take 149 (cleaned_text t)
            else take 150 (cleaned_text t))"
proof -
  have "cleaned_text t \<noteq> []" using assms(2) by auto
  then have "heuristic_summary ul t lang = lang_prefix ul lang @ strip (take 150 (cleaned_text t))"
    using search_None_if_no_stop [OF assms(1)] by (simp add: heuristic_summary_def)
  then show ?thesis by (simp only: strip_take_150 [OF assms(2)])
qed

text \<open>
  C3, amended. For every text without \<open>.\<close>, \<open>?\<close> and \<open>!\<close> whose cleaned form is longer
  than 150 characters, the summary is the language prefix followed by the first 150
  characters of the cleaned text, or by the first 149 when the 150th is a space.
\<close>

theorem long_text_summary:
  assumes "\<not> list_ex is_stop text" and "150 < length (cleaned_text text)"
  shows "heuristic_summary ul text lang =
           lang_prefix ul lang @
           (if cleaned_text text ! 149 = 32 then take 149 (cleaned_text text)
            else take 150 (cleaned_text text))"
  using assms by (rule summary_long_no_stop)

lemma sub_ws_no_space: "\<forall>c\<in>set s. \<not> isspace c \<Longrightarrow> sub_ws b s = s"
  by (induction s arbitrary: b) auto

lemma strip_no_space: "\<forall>c\<in>set s. \<not> isspace c \<Longrightarrow> strip s = s"
proof -
  assume a: "\<forall>c\<in>set s. \<not> isspace c"
  then have "dropWhile isspace s = s" by (cases s) auto
  moreover from a have "dropWhile isspace (rev s) = rev s"
    by (cases "rev s") (auto simp: dropWhile_eq_self_iff hd_rev dest: last_in_set)
  ultimately show ?thesis by (simp add: strip_def)
qed

lemma cleaned_no_space: "\<forall>c\<in>set s. \<not> isspace c \<Longrightarrow> cleaned_text s = s"
  by (simp add: cleaned_text_def sub_ws_no_space strip_no_space)

lemma cleaned_one_space:
  assumes "\<forall>c\<in>set xs. \<not> isspace c" "\<forall>c\<in>set ys. \<not> isspace c" "xs \<noteq> []" "ys \<noteq> []"
  shows "cleaned_text (xs @ 32 # ys) = xs @ 32 # ys"
proof -
  have a: "sub_ws False (xs @ 32 # ys) = xs @ 32 # ys"
    using assms(1)
  proof (induction xs)
    case Nil
    with assms(2) show ?case by (simp add: isspace_32 sub_ws_no_space)
  next
    case (Cons x xs)
    then show ?case by simp
  qed
  have "last (xs @ 32 # ys) = last ys" using assms(4) by simp
  then have "\<not> isspace (last (xs @ 32 # ys))" using assms(2,4) by simp
  then have "strip (xs @ 32 # ys) = dropWhile isspace (xs @ 32 # ys)"
    by (intro strip_keeps_last) simp_all
  also have "\<dots> = xs @ 32 # ys" using assms(1,3) by (cases xs) auto
  finally show ?thesis by (simp add: cleaned_text_def a)
qed

text \<open>
  C3 as first stated fails when the 150th character is a space: 149 letters \<open>a\<close>, a
  space and a \<open>b\<close> give a summary of 149 characters, while the first 150 characters
  of the cleaned text end in the space.
\<close>

theorem long_text_summary_counterexample:
  "\<not> list_ex is_stop (replicate 149 97 @ [32, 98]) \<and>
   length (cleaned_text (replicate 149 97 @ [32, 98])) = 151 \<and>
   lang_prefix ascii_lower_only (ustr_of ''en'') = [] \<and>
   heuristic_summary ascii_lower_only (replicate 149 97 @ [32, 98]) (ustr_of ''en'') =
     replicate 149 97 \<and>
   take 150 (cleaned_text (replicate 149 97 @ [32, 98])) = replicate 149 97 @ [32]"
proof -
  have c: "cleaned_text (replicate 149 97 @ [32, 98]) = replicate 149 97 @ [32, 98]"
    by (rule cleaned_one_space) (simp_all add: isspace_def)
  have h: "\<not> list_ex is_stop (replicate 149 97 @ [32, 98])"
    "150 < length (cleaned_text (replicate 149 97 @ [32, 98]))"
    unfolding c by (simp_all add: list_ex_iff is_stop_def)
  have p: "lang_prefix ascii_lower_only (ustr_of ''en'') = []"
    by (simp add: lang_prefix_def lower_def ascii_lower_def ustr_of_def startswith_def)
  from summary_long_no_stop [OF h, of ascii_lower_only "ustr_of ''en''"] h show ?thesis
    by (simp add: c p nth_append)
qed

theorem long_text_summary_witness:
  "\<not> list_ex is_stop (replicate 151 97) \<and> 150 < length (cleaned_text (replicate 151 97)) \<and>
   heuristic_summary ascii_lower_only (replicate 151 97) (ustr_of ''en'') = replicate 150 97"
proof -
  have c: "cleaned_text (replicate 151 97) = replicate 151 97"
    by (rule cleaned_no_space) (simp add: isspace_def)
  have h: "\<not> list_ex is_stop (replicate 151 97)" "150 < length (cleaned_text (replicate 151 97))"
    unfolding c by (simp_all add: list_ex_iff is_stop_def)
  have p: "lang_prefix ascii_lower_only (ustr_of ''en'') = []"
    by (simp add: lang_prefix_def lower_def ascii_lower_def ustr_of_def startswith_def)
  from long_text_summary [OF h, of ascii_lower_only "ustr_of ''en''"] h show ?thesis
    by (simp add: c p)
qed

subsection \<open>The first loop never raises\<close>

lemma match_optional_None_iff:
  "match_optional g r s = None \<longleftrightarrow> match_seq (g @ r) s = None \<and> match_seq r s = None"
  by (auto simp: match_optional_def split: option.splits)

lemma imperative_re_token: "imperative_re = token_re @ [Rep isspace 1 None, Rep is_alpha 1 (Some 1)]"
  by (simp add: imperative_re_def token_re_def)

lemma match_prefix_of_match:
  assumes "match_seq (xs @ ys) s \<noteq> None"
  shows "match_seq xs s \<noteq> None"
proof -
  from assms obtain ns where "match_seq (xs @ ys) s = Some ns" by blast
  then have "valid (xs @ ys) s ns" by (rule match_seq_sound)
  then have "valid xs s (take (length xs) ns)" by (rule valid_prefix)
  then show ?thesis by (rule match_seq_complete)
qed

lemma token_of_imperative:
  assumes "match_optional please_group imperative_re line \<noteq> None"
  shows "match_token line \<noteq> None"
proof -
  from assms have "match_seq (please_group @ imperative_re) line \<noteq> None \<or>
                   match_seq imperative_re line \<noteq> None"
    by (simp add: match_optional_None_iff)
  then have "match_seq (please_group @ token_re) line \<noteq> None \<or>
             match_seq token_re line \<noteq> None"
  proof
    assume "match_seq (please_group @ imperative_re) line \<noteq> None"
    then have "match_seq ((please_group @ token_re) @ [Rep isspace 1 None, Rep is_alpha 1 (Some 1)]) line \<noteq> None"
      by (simp add: imperative_re_token)
    then have "match_seq (please_group @ token_re) line \<noteq> None"
      by (rule match_prefix_of_match)
    then show ?thesis by simp
  next
    assume "match_seq imperative_re line \<noteq> None"
    then have "match_seq token_re line \<noteq> None"
      unfolding imperative_re_token by (rule match_prefix_of_match)
    then show ?thesis by simp
  qed
  then have "match_optional please_group token_re line \<noteq> None"
    by (simp add: match_optional_None_iff)
  then show ?thesis by (auto simp: match_token_def split: option.splits)
qed

lemma imperative_total: "imperative ul line \<noteq> None"
  using token_of_imperative [of line]
  by (auto simp: imperative_def Let_def split: option.splits)

lemma scan_lines_filter: "scan_lines ul ls acc = Some (acc @ filter (recorded ul) ls)"
proof (induction ls arbitrary: acc)
  case Nil
  then show ?case by simp
next
  case (Cons l ls)
  show ?case
  proof (cases "list_ex (contains (lower ul l)) action_keywords")
    case True
    then show ?thesis by (simp add: Cons recorded_def)
  next
    case False
    from imperative_total [of ul l] obtain b where b: "imperative ul l = Some b" by blast
    with False show ?thesis by (cases b) (simp_all add: Cons recorded_def)
  qed
qed

subsection \<open>The second loop keeps the first occurrence of every key\<close>

lemma dedup_acc: "dedup_loop ul as seen acc = acc @ dedup_loop ul as seen []"
proof (induction as arbitrary: seen acc)
  case Nil
  then show ?case by simp
next
  case (Cons a as)
  show ?case
  proof (cases "lower ul a \<in> seen")
    case True
    then show ?thesis using Cons [of seen acc] by simp
  next
    case False
    then show ?thesis
      using Cons [of "insert (lower ul a) seen" "acc @ [a]"]
            Cons [of "insert (lower ul a) seen" "[a]"] by simp
  qed
qed

lemma dedup_Cons:
  "dedup_loop ul (a # as) seen [] =
     (if lower ul a \<notin> seen then a # dedup_loop ul as (insert (lower ul a) seen) []
      else dedup_loop ul as seen [])"
  using dedup_acc [of ul as "insert (lower ul a) seen" "[a]"] by simp

lemma dedup_subset: "set (dedup_loop ul as seen []) \<subseteq> set as"
proof (induction as arbitrary: seen)
  case Nil
  then show ?case by simp
next
  case (Cons a as)
  from Cons [of seen] Cons [of "insert (lower ul a) seen"] show ?case
    by (auto simp: dedup_Cons simp del: dedup_loop.simps)
qed



lemma dedup_Nil_iff: "dedup_loop ul as seen [] = [] \<longleftrightarrow> (\<forall>a\<in>set as. lower ul a \<in> seen)"
proof (induction as arbitrary: seen)
  case Nil
  then show ?case by simp
next
  case (Cons a as)
  from Cons [of seen] show ?case
    by (auto simp: dedup_Cons simp del: dedup_loop.simps)
qed




subsection \<open>The action extractor as a whole\<close>

lemma strip_nonempty_iff: "strip t \<noteq> [] \<longleftrightarrow> \<not> list_all isspace t"
  by (simp add: strip_eq_Nil list_all_iff)

lemma dedup_empty_iff: "dedup_loop ul as {} [] = [] \<longleftrightarrow> as = []"
proof (cases as)
  case Nil
  then show ?thesis by simp
next
  case (Cons a as')
  then show ?thesis by (simp add: dedup_Cons del: dedup_loop.simps)
qed

lemma extract_actions_eq:
  "extract_actions ul text =
     Some (take 10
       (if filter (recorded ul) (stripped_lines text) = [] \<and> \<not> list_all isspace text
        then [fallback_action]
        else dedup_loop ul (filter (recorded ul) (stripped_lines text)) {} []))"
  using scan_lines_filter [of ul "stripped_lines text" "[]"]
  by (simp add: extract_actions_def Let_def dedup_empty_iff strip_nonempty_iff)

lemma stripped_lines_blank:
  assumes "list_all isspace text"
  shows "stripped_lines text = []"
proof -
  have "strip l = []" if "l \<in> set (splitlines text)" for l
  proof -
    from splitlines_chars [OF that] assms have "\<forall>c\<in>set l. isspace c"
      by (auto simp: list_all_iff)
    then show ?thesis by (simp add: strip_eq_Nil)
  qed
  then have "filter (\<lambda>l. strip l \<noteq> []) (splitlines text) = []"
    by (simp add: filter_empty_conv)
  then show ?thesis by (simp add: stripped_lines_def)
qed

lemma blank_summary:
  assumes "list_all isspace text"
  shows "heuristic_summary ul text lang = ustr_of ''No content provided.''"
  using assms by (simp add: heuristic_summary_def cleaned_empty_iff)

lemma blank_actions:
  assumes "list_all isspace text"
  shows "extract_actions ul text = Some []"
  using assms by (simp add: extract_actions_eq stripped_lines_blank)

text \<open>
  C5. For every text of whitespace characters only, the empty text included, the summary
  is \<open>No content provided.\<close> without any language prefix and the actions list is
  empty: no fallback entry is added. The request handler returns exactly these two.
\<close>

theorem blank_text:
  assumes "list_all isspace text"
  shows "heuristic_summary ul text lang = ustr_of ''No content provided.'' \<and>
         extract_actions ul text = Some [] \<and>
         analyze ul \<lparr>req_text = text, req_lang = l\<rparr> =
           Some \<lparr>summary = ustr_of ''No content provided.'', actions = []\<rparr>"
  using blank_summary [OF assms] blank_actions [OF assms]
  by (simp add: analyze_def Let_def)

theorem blank_text_witness:
  "list_all isspace [32, 10, 9] \<and>
   heuristic_summary ascii_lower_only [32, 10, 9] (ustr_of ''te'') =
     ustr_of ''No content provided.'' \<and>
   extract_actions ascii_lower_only [32, 10, 9] = Some [] \<and>
   analyze ascii_lower_only \<lparr>req_text = [32, 10, 9], req_lang = Some (ustr_of ''te'')\<rparr> =
     Some \<lparr>summary = ustr_of ''No content provided.'', actions = []\<rparr>"
proof -
  have h: "list_all isspace [32, 10, 9]" by (simp add: isspace_def)
  from blank_text [OF h, of ascii_lower_only "ustr_of ''te''" "Some (ustr_of ''te'')"] h
  show ?thesis by simp
qed

lemma fallback_if_none:
  assumes "\<not> list_all isspace text"
    and "\<forall>l\<in>set (stripped_lines text).
           \<not> list_ex (contains (lower ul l)) action_keywords \<and> imperative ul l \<noteq> Some True"
  shows "extract_actions ul text = Some [fallback_action]"
proof -
  from assms(2) have "filter (recorded ul) (stripped_lines text) = []"
    by (simp add: filter_empty_conv recorded_def)
  with assms(1) show ?thesis by (simp add: extract_actions_eq)
qed

text \<open>
  C2, amended. For every text with at least one character that is not whitespace, when
  no stripped line passes the keyword test and none is recorded by the imperative
  heuristic, the actions list is the fallback string alone.
\<close>

theorem fallback_when_nothing_recorded:
  assumes "\<not> list_all isspace text"
    and "\<forall>l\<in>set (stripped_lines text).
           \<not> list_ex (contains (lower ul l)) action_keywords \<and> imperative ul l \<noteq> Some True"
  shows "extract_actions ul text = Some [fallback_action]"
  using assms by (rule fallback_if_none)

text \<open>
  C2 as first stated fails on a text that is not empty but blank: for a single space no
  candidate is recorded and the actions list is empty.
\<close>

theorem fallback_single_space_counterexample:
  "[32] \<noteq> ([] :: ustr) \<and> scan_lines ascii_lower_only (stripped_lines [32]) [] = Some [] \<and>
   extract_actions ascii_lower_only [32] = Some []"
proof -
  have "list_all isspace [32]" by (simp add: isspace_def)
  then show ?thesis
    using stripped_lines_blank [of "[32]"] blank_actions [of "[32]" ascii_lower_only] by simp
qed

text \<open>
  C10. The extractor returns a list, and every element of it is the fallback string or a
  line of the text stripped of surrounding space, hyphen, bullet and tab characters.
\<close>

theorem actions_from_lines:
  "\<exists>acts. extract_actions ul text = Some acts \<and>
     (\<forall>a\<in>set acts. a = fallback_action \<or>
        (\<exists>l\<in>set (splitlines text). a = strip_chars bullet_chars l))"
proof -
  let ?c = "filter (recorded ul) (stripped_lines text)"
  have "set (take 10 (dedup_loop ul ?c {} [])) \<subseteq> set (stripped_lines text)"
    using set_take_subset [of 10 "dedup_loop ul ?c {} []"] dedup_subset [of ul ?c "{}"]
    by auto
  then have "\<forall>a\<in>set (take 10 (dedup_loop ul ?c {} [])).
               \<exists>l\<in>set (splitlines text). a = strip_chars bullet_chars l"
    by (auto simp: stripped_lines_def)
  then show ?thesis by (simp add: extract_actions_eq)
qed


subsection \<open>The extractor on concrete texts\<close>

lemmas eval_str = ustr_of_def isspace_def is_linebreak_def strip_def strip_chars_def
  bullet_chars_def lower_def ascii_lower_def ascii_lower_only_def startswith_def endswith_def
  is_alpha_def is_stop_def

lemmas eval_re = match_optional_def please_group_def lit_def imperative_re_def token_re_def
  match_token_def try_count_0 try_count_Suc imperative_def

lemma hello_lines: "stripped_lines (ustr_of ''hello world'') = [ustr_of ''hello world'']"
  by (simp add: stripped_lines_def splitlines_def eval_str)

lemma hello_keywords:
  "\<not> list_ex (contains (lower ascii_lower_only (ustr_of ''hello world''))) action_keywords"
  by (simp add: action_keywords_def eval_str)

lemma hello_imperative: "imperative ascii_lower_only (ustr_of ''hello world'') = Some False"
  by (simp add: eval_re eval_str)


theorem fallback_when_nothing_recorded_witness:
  "\<not> list_all isspace (ustr_of ''hello world'') \<and>
   stripped_lines (ustr_of ''hello world'') = [ustr_of ''hello world''] \<and>
   \<not> list_ex (contains (lower ascii_lower_only (ustr_of ''hello world''))) action_keywords \<and>
   imperative ascii_lower_only (ustr_of ''hello world'') = Some False \<and>
   extract_actions ascii_lower_only (ustr_of ''hello world'') = Some [fallback_action]"
proof -
  have h: "\<not> list_all isspace (ustr_of ''hello world'')"
    "\<forall>l\<in>set (stripped_lines (ustr_of ''hello world'')).
       \<not> list_ex (contains (lower ascii_lower_only l)) action_keywords \<and>
       imperative ascii_lower_only l \<noteq> Some True"
    using hello_keywords hello_imperative by (simp_all add: hello_lines) (simp add: eval_str)
  from fallback_when_nothing_recorded [OF h] h(1) hello_lines hello_keywords hello_imperative
  show ?thesis by simp
qed

lemma calls_split:
  "splitlines (ustr_of ''Call Bob\<newline>- call bob\<newline>Send it -'') =
     [ustr_of ''Call Bob'', ustr_of ''- call bob'', ustr_of ''Send it -'']"
  by (simp add: splitlines_def eval_str)

lemma calls_lines:
  "stripped_lines (ustr_of ''Call Bob\<newline>- call bob\<newline>Send it -'') =
     [ustr_of ''Call Bob'', ustr_of ''call bob'', ustr_of ''Send it'']"
  unfolding stripped_lines_def calls_split by (simp add: eval_str)

lemma calls_scan:
  "scan_lines ascii_lower_only
     [ustr_of ''Call Bob'', ustr_of ''call bob'', ustr_of ''Send it''] [] =
   Some [ustr_of ''Call Bob'', ustr_of ''call bob'', ustr_of ''Send it'']"
  by (simp add: action_keywords_def eval_str)

lemma calls_actions:
  "extract_actions ascii_lower_only
     (ustr_of ''Call Bob\<newline>- call bob\<newline>Send it -'') =
   Some [ustr_of ''Call Bob'', ustr_of ''Send it'']"
  unfolding extract_actions_def calls_lines calls_scan by (simp add: eval_str)

theorem actions_from_lines_witness:
  "extract_actions ascii_lower_only (ustr_of ''Call Bob\<newline>- call bob\<newline>Send it -'') =
     Some [ustr_of ''Call Bob'', ustr_of ''Send it''] \<and>
   splitlines (ustr_of ''Call Bob\<newline>- call bob\<newline>Send it -'') =
     [ustr_of ''Call Bob'', ustr_of ''- call bob'', ustr_of ''Send it -''] \<and>
   ustr_of ''Call Bob'' = strip_chars bullet_chars (ustr_of ''Call Bob'') \<and>
   ustr_of ''Send it'' = strip_chars bullet_chars (ustr_of ''Send it -'')"
proof -
  have "ustr_of ''Call Bob'' = strip_chars bullet_chars (ustr_of ''Call Bob'')"
    "ustr_of ''Send it'' = strip_chars bullet_chars (ustr_of ''Send it -'')"
    by (simp_all add: eval_str)
  with calls_actions calls_split
    actions_from_lines [of ascii_lower_only "ustr_of ''Call Bob\<newline>- call bob\<newline>Send it -''"]
  show ?thesis by blast
qed


subsection \<open>Stripped candidates and the request handler\<close>

lemma strip_chars_ends:
  assumes "strip_chars cs s \<noteq> []"
  shows "hd (strip_chars cs s) \<notin> set cs" and "last (strip_chars cs s) \<notin> set cs"
proof -
  let ?P = "\<lambda>c. c \<in> set cs"
  let ?d = "dropWhile ?P s"
  let ?e = "dropWhile ?P (rev ?d)"
  from assms have e: "?e \<noteq> []" by (simp add: strip_chars_def)
  then have d: "?d \<noteq> []" by (cases "?d = []") simp_all
  have "last (strip_chars cs s) = hd ?e" by (simp add: strip_chars_def last_rev)
  moreover have "\<not> ?P (hd ?e)" using e by (rule hd_dropWhile)
  ultimately show "last (strip_chars cs s) \<notin> set cs" by simp
  have "hd (strip_chars cs s) = last ?e" by (simp add: strip_chars_def hd_rev)
  also have "\<dots> = last (rev ?d)" using e by (metis last_appendR takeWhile_dropWhile_id)
  also have "\<dots> = hd ?d" by (simp add: last_rev)
  finally have "hd (strip_chars cs s) = hd ?d" .
  moreover have "\<not> ?P (hd ?d)" using d by (rule hd_dropWhile)
  ultimately show "hd (strip_chars cs s) \<notin> set cs" by simp
qed

lemma not_recorded_Nil: "\<not> recorded ul []"
  by (simp add: recorded_def action_keywords_def lower_Nil eval_re eval_str)

lemma candidates_stripped:
  "\<exists>cands. scan_lines ul (stripped_lines text) [] = Some cands \<and>
     subseq cands (map (strip_chars bullet_chars) (splitlines text)) \<and>
     (\<forall>a\<in>set cands. a \<noteq> [] \<and> hd a \<notin> set bullet_chars \<and> last a \<notin> set bullet_chars)"
proof -
  let ?c = "filter (recorded ul) (stripped_lines text)"
  have "subseq ?c (stripped_lines text)" by simp
  moreover have "subseq (stripped_lines text) (map (strip_chars bullet_chars) (splitlines text))"
    unfolding stripped_lines_def by (intro subseq_map) simp
  ultimately have 1: "subseq ?c (map (strip_chars bullet_chars) (splitlines text))"
    by (rule subseq_order.order_trans)
  have 2: "a \<noteq> [] \<and> hd a \<notin> set bullet_chars \<and> last a \<notin> set bullet_chars" if "a \<in> set ?c" for a
  proof -
    from that have r: "recorded ul a" and "a \<in> set (stripped_lines text)" by auto
    then obtain l where a: "a = strip_chars bullet_chars l" by (auto simp: stripped_lines_def)
    from r not_recorded_Nil have "a \<noteq> []" by auto
    with strip_chars_ends [of bullet_chars l] a show ?thesis by simp
  qed
  from 1 2 show ?thesis by (simp add: scan_lines_filter)
qed

text \<open>
  C6, amended. The recorded candidates are, in order, lines of the text with the
  characters space, hyphen, bullet and tab removed from both ends (and no other
  character): no candidate is empty, and none begins or ends with one of the four.
\<close>

theorem candidates_stripped_both_ends:
  "\<exists>cands. scan_lines ul (stripped_lines text) [] = Some cands \<and>
     subseq cands (map (strip_chars bullet_chars) (splitlines text)) \<and>
     (\<forall>a\<in>set cands. a \<noteq> [] \<and> hd a \<notin> set bullet_chars \<and> last a \<notin> set bullet_chars)"
  by (rule candidates_stripped)

lemma call_me_lines: "stripped_lines (ustr_of ''call me -'') = [ustr_of ''call me'']"
  by (simp add: stripped_lines_def splitlines_def eval_str)

lemma call_me_scan:
  "scan_lines ascii_lower_only [ustr_of ''call me''] [] = Some [ustr_of ''call me'']"
  by (simp add: action_keywords_def eval_str)

theorem candidates_stripped_both_ends_witness:
  "scan_lines ascii_lower_only (stripped_lines (ustr_of ''call me -'')) [] =
     Some [ustr_of ''call me''] \<and>
   subseq [ustr_of ''call me'']
     (map (strip_chars bullet_chars) (splitlines (ustr_of ''call me -''))) \<and>
   ustr_of ''call me'' \<noteq> [] \<and>
   hd (ustr_of ''call me'') \<notin> set bullet_chars \<and>
   last (ustr_of ''call me'') \<notin> set bullet_chars"
proof -
  from candidates_stripped_both_ends [of ascii_lower_only "ustr_of ''call me -''"]
  obtain cands where
    c: "scan_lines ascii_lower_only (stripped_lines (ustr_of ''call me -'')) [] = Some cands"
       "subseq cands (map (strip_chars bullet_chars) (splitlines (ustr_of ''call me -'')))"
       "\<forall>a\<in>set cands. a \<noteq> [] \<and> hd a \<notin> set bullet_chars \<and> last a \<notin> set bullet_chars"
    by blast
  from c(1) have "cands = [ustr_of ''call me'']" unfolding call_me_lines call_me_scan by simp
  with c show ?thesis by simp
qed

text \<open>
  C6 as first stated keeps a trailing hyphen. For the line \<open>call me -\<close> the line as the
  specification words it is the whole line, while the recorded candidate is \<open>call me\<close>.
\<close>

theorem trailing_hyphen_counterexample:
  "splitlines (ustr_of ''call me -'') = [ustr_of ''call me -''] \<and>
   spec_strip_line (ustr_of ''call me -'') = ustr_of ''call me -'' \<and>
   scan_lines ascii_lower_only (stripped_lines (ustr_of ''call me -'')) [] =
     Some [ustr_of ''call me''] \<and>
   ustr_of ''call me'' \<noteq> ustr_of ''call me -''"
  unfolding call_me_lines call_me_scan
  by (simp add: splitlines_def spec_strip_line_def eval_str)

lemma analyze_total: "analyze ul req \<noteq> None"
  by (simp add: analyze_def Let_def extract_actions_eq)

subsection \<open>The imperative heuristic and the word please\<close>

lemma lit_miss:
  "s = [] \<or> hd s \<noteq> c \<Longrightarrow> match_seq (Rep (\<lambda>x. x = c) 1 (Some 1) # items) s = None"
  by (cases s) (auto simp: try_count_0)

lemma lit_hit:
  "match_seq (Rep (\<lambda>x. x = c) 1 (Some 1) # items) (c # s) =
     map_option (Cons 1) (match_seq items s)"
  by (cases "match_seq items s") (simp_all add: try_count_Suc try_count_0)

lemma class_run:
  assumes "list_all p w" and "lo \<le> length w" and "s = [] \<or> \<not> p (hd s)"
    and "match_seq items s = Some ns"
  shows "match_seq (Rep p lo None # items) (w @ s) = Some (length w # ns)"
proof -
  have "takeWhile p (w @ s) = w"
    using assms(1,3) by (cases s) (auto simp: list_all_iff takeWhile_append2)
  then have "match_seq (Rep p lo None # items) (w @ s) =
               try_count p lo items (w @ s) (length w)" by simp
  also have "\<dots> = Some (length w # ns)"
    using assms(2,4) by (intro try_count_hit) simp_all
  finally show ?thesis .
qed


lemma single_class_hit: "p c \<Longrightarrow> match_seq [Rep p 1 (Some 1)] (c # rest) = Some [1]"
  by (simp add: try_count_Suc)

lemma lit6_hit:
  "match_seq (lit [a, b, c, d, e, f] @ items) (a # b # c # d # e # f # s) =
     map_option (\<lambda>ns. 1 # 1 # 1 # 1 # 1 # 1 # ns) (match_seq items s)"
  unfolding lit_def list.map append.simps lit_hit
  by (simp add: option.map_comp comp_def)

lemma imperative_re_word:
  assumes "list_all is_alpha w" "w \<noteq> []" "ws \<noteq> []" "list_all isspace ws" "is_alpha c"
  shows "match_seq imperative_re (w @ ws @ c # rest) = Some [length w, length ws, 1]"
proof -
  have 1: "match_seq [Rep is_alpha 1 (Some 1)] (c # rest) = Some [1]"
    using assms(5) by (rule single_class_hit)
  have a: "1 \<le> length ws" using assms(3) by (simp add: Suc_le_eq)
  have b: "c # rest = [] \<or> \<not> isspace (hd (c # rest))"
    using assms(5) isspace_not_alpha [of c] by auto
  have 2:
    "match_seq [Rep isspace 1 None, Rep is_alpha 1 (Some 1)] (ws @ c # rest) = Some [length ws, 1]"
    by (rule class_run [OF assms(4) a b 1])
  have c: "1 \<le> length w" using assms(2) by (simp add: Suc_le_eq)
  have d: "ws @ c # rest = [] \<or> \<not> is_alpha (hd (ws @ c # rest))"
    using assms(3,4) by (cases ws) (auto simp: isspace_not_alpha)
  show ?thesis
    unfolding imperative_re_def by (rule class_run [OF assms(1) c d 2])
qed

lemma token_plain:
  assumes "match_seq (please_group @ token_re) (w @ s) = None"
    and "list_all is_alpha w" "w \<noteq> []" "s = [] \<or> \<not> is_alpha (hd s)"
  shows "match_token (w @ s) = Some w"
proof -
  have a: "1 \<le> length w" using assms(3) by (simp add: Suc_le_eq)
  have b: "match_seq [] s = Some []" by simp
  have "match_seq token_re (w @ s) = Some [length w]"
    unfolding token_re_def by (rule class_run [OF assms(2) a assms(4) b])
  with assms(1) show ?thesis by (simp add: match_token_def match_optional_def)
qed

lemma token_please:
  assumes "ws \<noteq> []" "list_all isspace ws" "is_alpha c"
  shows "match_token (ustr_of ''please'' @ ws @ c # rest) = Some (c # takeWhile is_alpha rest)"
proof -
  let ?tok = "c # takeWhile is_alpha rest"
  let ?dr = "dropWhile is_alpha rest"
  let ?line = "112 # 108 # 101 # 97 # 115 # 101 # (ws @ ?tok @ ?dr)"
  have rest: "c # rest = ?tok @ ?dr" by simp
  have dr: "?dr = [] \<or> \<not> is_alpha (hd ?dr)" using hd_dropWhile [of is_alpha rest] by blast
  have tok: "list_all is_alpha ?tok"
    using assms(3) by (auto simp: list_all_iff dest: set_takeWhileD)
  have a: "1 \<le> length ?tok" by simp
  have b: "match_seq [] ?dr = Some []" by simp
  have 1: "match_seq token_re (?tok @ ?dr) = Some [length ?tok]"
    unfolding token_re_def by (rule class_run [OF tok a dr b])
  have c: "1 \<le> length ws" using assms(1) by (simp add: Suc_le_eq)
  have d: "?tok @ ?dr = [] \<or> \<not> isspace (hd (?tok @ ?dr))"
    using assms(3) isspace_not_alpha [of c] by auto
  have 2: "match_seq (Rep isspace 1 None # token_re) (ws @ ?tok @ ?dr) =
             Some [length ws, length ?tok]"
    by (rule class_run [OF assms(2) c d 1])
  have pg: "please_group @ token_re =
              lit [112, 108, 101, 97, 115, 101] @ (Rep isspace 1 None # token_re)"
    by (simp add: please_group_def ustr_of_def)
  have 3: "match_seq (please_group @ token_re) ?line =
             Some [1, 1, 1, 1, 1, 1, length ws, length ?tok]"
    by (simp only: pg lit6_hit 2 option.map)
  have len: "length please_group = 7" by (simp add: please_group_def lit_def ustr_of_def)
  have t7: "take (length please_group) [1, 1, 1, 1, 1, 1, length ws, length ?tok] =
              [1, 1, 1, 1, 1, 1, length ws]" by (simp add: len)
  have d7: "drop (length please_group) [1, 1, 1, 1, 1, 1, length ws, length ?tok] =
              [length ?tok]" by (simp add: len)
  have sl: "sum_list [length ?tok] = length ?tok" by simp
  have dl: "drop (sum_list [1, 1, 1, 1, 1, 1, length ws]) ?line = ?tok @ ?dr" by simp
  have tk: "take (length ?tok) (?tok @ ?dr) = ?tok" by (metis append_eq_conv_conj)
  have "match_token ?line = Some ?tok"
    by (simp only: match_token_def match_optional_def 3 option.case prod.case t7 d7 sl dl tk)
  moreover have "ustr_of ''please'' @ ws @ c # rest = ?line"
    by (simp add: ustr_of_def)
  ultimately show ?thesis by (simp only:)
qed


lemma endswith_single: "s \<noteq> [] \<Longrightarrow> endswith s [x] \<longleftrightarrow> last s = x"
proof -
  assume "s \<noteq> []"
  then have s: "s = butlast s @ [last s]" by simp
  have "drop (length s - 1) s = [last s]"
    by (subst (2) s) simp
  with \<open>s \<noteq> []\<close> show ?thesis by (cases s) (auto simp: endswith_def)
qed

lemma lower_alpha: "list_all is_alpha w \<Longrightarrow> lower ul w = map ascii_lower w"
proof -
  assume "list_all is_alpha w"
  then have "list_all (\<lambda>c. c < 128) w" by (auto simp: list_all_iff is_alpha_def)
  then show ?thesis by (simp add: lower_def)
qed

lemma imperative_of_token:
  assumes "match_seq imperative_re line \<noteq> None" and "match_token line = Some tok"
    and "list_all is_alpha tok" and "tok \<noteq> []"
  shows "imperative ul line = Some (ascii_lower (last tok) \<in> {101, 100, 110, 121})"
proof -
  have m: "match_optional please_group imperative_re line \<noteq> None"
    using assms(1) by (simp add: match_optional_None_iff)
  have "last (map ascii_lower tok) = ascii_lower (last tok)"
    using assms(4) by (simp add: last_map)
  then show ?thesis
    using m assms(2,4)
    by (simp only: imperative_def if_True option.case Let_def lower_alpha [OF assms(3)])
       (auto simp: ustr_of_def endswith_single)
qed

lemma imperative_Please:
  assumes "ws \<noteq> []" "list_all isspace ws" "is_alpha c"
  shows "imperative ul (ustr_of ''Please'' @ ws @ c # rest) = Some True"
proof -
  let ?line = "ustr_of ''Please'' @ ws @ c # rest"
  have al: "list_all is_alpha (ustr_of ''Please'')" by (simp add: ustr_of_def is_alpha_def)
  have ne: "ustr_of ''Please'' \<noteq> []" by (simp add: ustr_of_def)
  have "match_seq imperative_re ?line = Some [length (ustr_of ''Please''), length ws, 1]"
    by (rule imperative_re_word [OF al ne assms])
  then have 1: "match_seq imperative_re ?line \<noteq> None" by simp
  have "match_seq (please_group @ token_re) ?line = None"
    by (simp add: please_group_def lit_def ustr_of_def try_count_0)
  moreover have "ws @ c # rest = [] \<or> \<not> is_alpha (hd (ws @ c # rest))"
    using assms(1,2) by (cases ws) (auto simp: isspace_not_alpha)
  ultimately have 2: "match_token ?line = Some (ustr_of ''Please'')"
    using al ne by (intro token_plain)
  have "ascii_lower (last (ustr_of ''Please'')) \<in> {101, 100, 110, 121}"
    by (simp add: ustr_of_def ascii_lower_def)
  with imperative_of_token [OF 1 2 al ne, of ul] show ?thesis by simp
qed

lemma imperative_please:
  assumes "ws \<noteq> []" "list_all isspace ws" "is_alpha c"
  shows "imperative ul (ustr_of ''please'' @ ws @ c # rest) =
           Some (ascii_lower (last (c # takeWhile is_alpha rest)) \<in> {101, 100, 110, 121})"
proof -
  let ?line = "ustr_of ''please'' @ ws @ c # rest"
  have al: "list_all is_alpha (ustr_of ''please'')" by (simp add: ustr_of_def is_alpha_def)
  have ne: "ustr_of ''please'' \<noteq> []" by (simp add: ustr_of_def)
  have "match_seq imperative_re ?line = Some [length (ustr_of ''please''), length ws, 1]"
    by (rule imperative_re_word [OF al ne assms])
  then have 1: "match_seq imperative_re ?line \<noteq> None" by simp
  have 2: "match_token ?line = Some (c # takeWhile is_alpha rest)"
    by (rule token_please [OF assms])
  have 3: "list_all is_alpha (c # takeWhile is_alpha rest)"
    using assms(3) by (auto simp: list_all_iff dest: set_takeWhileD)
  show ?thesis by (rule imperative_of_token [OF 1 2 3]) simp
qed

lemma scan_single:
  "imperative ul line = Some True \<Longrightarrow> scan_lines ul [line] acc = Some (acc @ [line])"
  by simp

text \<open>
  C8, amended. The imperative heuristic treats \<open>please\<close> by case. A line \<open>Please\<close>,
  whitespace, then a word that starts with a letter is always recorded, whatever the
  word: the token is \<open>Please\<close> itself. For the same line with a lower-case \<open>p\<close> the
  token is the run of letters at the start of the word, and the heuristic records the
  line exactly when that run, lower-cased, ends in \<open>e\<close>, \<open>d\<close>, \<open>n\<close> or \<open>y\<close>.
\<close>

theorem please_is_case_sensitive:
  assumes "ws \<noteq> []" and "list_all isspace ws" and "is_alpha c"
  shows "imperative ul (ustr_of ''Please'' @ ws @ c # rest) = Some True \<and>
         scan_lines ul [ustr_of ''Please'' @ ws @ c # rest] acc =
           Some (acc @ [ustr_of ''Please'' @ ws @ c # rest]) \<and>
         imperative ul (ustr_of ''please'' @ ws @ c # rest) =
           Some (ascii_lower (last (c # takeWhile is_alpha rest)) \<in> {101, 100, 110, 121})"
  using imperative_Please [OF assms] imperative_please [OF assms]
        scan_single [OF imperative_Please [OF assms]]
  by blast

theorem please_is_case_sensitive_witness:
  "[32] \<noteq> ([] :: ustr) \<and> list_all isspace [32] \<and> is_alpha 103 \<and>
   imperative ascii_lower_only (ustr_of ''Please'' @ [32] @ 103 # ustr_of ''o 5 times'') = Some True \<and>
   scan_lines ascii_lower_only [ustr_of ''Please'' @ [32] @ 103 # ustr_of ''o 5 times''] [] =
     Some ([] @ [ustr_of ''Please'' @ [32] @ 103 # ustr_of ''o 5 times'']) \<and>
   imperative ascii_lower_only (ustr_of ''please'' @ [32] @ 103 # ustr_of ''o 5 times'') = Some False"
proof -
  have h: "[32] \<noteq> ([] :: ustr)" "list_all isspace [32]" "is_alpha 103"
    by (simp_all add: isspace_def is_alpha_def)
  have "ascii_lower (last (103 # takeWhile is_alpha (ustr_of ''o 5 times''))) \<notin> {101, 100, 110, 121}"
    by (simp add: ustr_of_def is_alpha_def ascii_lower_def)
  with please_is_case_sensitive [OF h, of ascii_lower_only "ustr_of ''o 5 times''" "[]"] h
  show ?thesis by simp
qed

text \<open>
  C8 as first stated takes the whole word. In \<open>please e-mail Bob\<close> the word \<open>e-mail\<close>
  starts with a letter and ends in \<open>l\<close>, no keyword occurs in the line, and yet the
  heuristic records the line: its token is \<open>e\<close>.
\<close>

theorem please_email_counterexample:
  "imperative ascii_lower_only (ustr_of ''please e-mail Bob'') = Some True \<and>
   \<not> list_ex (contains (lower ascii_lower_only (ustr_of ''please e-mail Bob''))) action_keywords \<and>
   extract_actions ascii_lower_only (ustr_of ''please e-mail Bob'') =
     Some [ustr_of ''please e-mail Bob''] \<and>
   \<not> (endswith (lower ascii_lower_only (ustr_of ''e-mail'')) (ustr_of ''e'') \<or>
      endswith (lower ascii_lower_only (ustr_of ''e-mail'')) (ustr_of ''d'') \<or>
      endswith (lower ascii_lower_only (ustr_of ''e-mail'')) (ustr_of ''n'') \<or>
      endswith (lower ascii_lower_only (ustr_of ''e-mail'')) (ustr_of ''y''))"
proof -
  have 1: "imperative ascii_lower_only (ustr_of ''please e-mail Bob'') = Some True"
    by (simp add: eval_re eval_str)
  have 2: "\<not> list_ex (contains (lower ascii_lower_only (ustr_of ''please e-mail Bob'')))
              action_keywords"
    by (simp add: action_keywords_def eval_str)
  have 3: "stripped_lines (ustr_of ''please e-mail Bob'') = [ustr_of ''please e-mail Bob'']"
    by (simp add: stripped_lines_def splitlines_def eval_str)
  have 4: "scan_lines ascii_lower_only [ustr_of ''please e-mail Bob''] [] =
             Some [ustr_of ''please e-mail Bob'']"
    using 1 2 by simp
  have 5: "extract_actions ascii_lower_only (ustr_of ''please e-mail Bob'') =
             Some [ustr_of ''please e-mail Bob'']"
    unfolding extract_actions_def 3 4 by (simp add: eval_str)
  have 6: "\<not> (endswith (lower ascii_lower_only (ustr_of ''e-mail'')) (ustr_of ''e'') \<or>
      endswith (lower ascii_lower_only (ustr_of ''e-mail'')) (ustr_of ''d'') \<or>
      endswith (lower ascii_lower_only (ustr_of ''e-mail'')) (ustr_of ''n'') \<or>
      endswith (lower ascii_lower_only (ustr_of ''e-mail'')) (ustr_of ''y''))"
    by (simp add: eval_str)
  from 1 2 5 6 show ?thesis by blast
qed

end
